theory Spec2Isabelle
  imports Complex_Main "HOL-Library.Word"
begin

section \<open>Frame reader (deploy\_acquisition.py)\<close>

text \<open>
  The serial port is modelled by the list of bytes it will still deliver: \<open>ser.read(n)\<close>
  returns the first \<open>n\<close> of them (fewer when the port runs dry and the read times out)
  and leaves the others. The status queue is the list of messages put on it, oldest first.
\<close>

type_synonym byte = "8 word"

text \<open>The exceptions that the modelled code can raise; \<open>Lib_error\<close> stands for any other one.\<close>

datatype py_error =
  Struct_error | Index_error | Value_error | Key_error | Recursion_error | Lib_error

definition MARKER :: "byte list" where
  "MARKER = [0x4D, 0x41, 0x52, 0x4B, 0x45, 0x52]"

definition BUFFER_SIZE :: nat where
  "BUFFER_SIZE = 256"

definition PACKET_DATA_SIZE :: nat where
  "PACKET_DATA_SIZE = BUFFER_SIZE * 6"

datatype acq_status =
    Sync_lost_got "byte list"
  | Sync_lost_incomplete_marker nat
  | Incomplete_packet nat nat

text \<open>
  \<open>_find_marker\<close>, first loop: bytes are read one at a time until the buffer holds
  \<open>len(MARKER)\<close> of them; an empty read gives up.
\<close>

fun find_marker_fill :: "byte list \<Rightarrow> byte list \<Rightarrow> (byte list \<times> byte list) option" where
  "find_marker_fill buffer ser =
     (if length buffer < length MARKER then
        (case ser of
           [] \<Rightarrow> None
         | b # ser' \<Rightarrow> find_marker_fill (buffer @ [b]) ser')
      else Some (buffer, ser))"

text \<open>
  \<open>_find_marker\<close>, second loop: the last \<open>len(MARKER)\<close> bytes of the buffer are compared
  with the marker; otherwise one more byte is read and appended, and the search is given
  up once the buffer holds more than 1000 bytes. The result is the returned flag and the
  bytes left on the port.
\<close>

fun find_marker_scan :: "byte list \<Rightarrow> byte list \<Rightarrow> bool \<times> byte list" where
  "find_marker_scan buffer ser =
     (if drop (length buffer - length MARKER) buffer = MARKER then (True, ser)
      else
        (case ser of
           [] \<Rightarrow> (False, [])
         | b # ser' \<Rightarrow>
             if length (buffer @ [b]) > 1000 then (False, ser')
             else find_marker_scan (buffer @ [b]) ser'))"

definition find_marker :: "byte list \<Rightarrow> bool \<times> byte list" where
  "find_marker ser =
     (case find_marker_fill [] ser of
        None \<Rightarrow> (False, [])
      | Some (buffer, ser') \<Rightarrow> find_marker_scan buffer ser')"

lemma find_marker_fill_length:
  "find_marker_fill buffer ser = Some (buffer', ser') \<Longrightarrow>
     length buffer' + length ser' = length buffer + length ser \<and> length MARKER \<le> length buffer'"
proof (induction buffer ser rule: find_marker_fill.induct)
  case (1 buffer ser)
  show ?case
  proof (cases "length buffer < length MARKER")
    case True
    with "1.prems" obtain b r where ser: "ser = b # r"
      and rec: "find_marker_fill (buffer @ [b]) r = Some (buffer', ser')"
      by (cases ser) auto
    from "1.IH" [OF True ser rec] ser show ?thesis by simp
  next
    case False
    with "1.prems" show ?thesis by simp
  qed
qed

lemma find_marker_scan_length:
  "find_marker_scan buffer ser = (found, ser') \<Longrightarrow> length ser' \<le> length ser"
proof (induction buffer ser rule: find_marker_scan.induct)
  case (1 buffer ser)
  show ?case
  proof (cases "drop (length buffer - length MARKER) buffer = MARKER")
    case True
    with "1.prems" show ?thesis by simp
  next
    case False
    show ?thesis
    proof (cases ser)
      case Nil
      with False "1.prems" show ?thesis by simp
    next
      case (Cons b r)
      show ?thesis
      proof (cases "length (buffer @ [b]) > 1000")
        case True
        with False Cons "1.prems" show ?thesis by simp
      next
        case over: False
        with False Cons "1.prems" have "find_marker_scan (buffer @ [b]) r = (found, ser')"
          by simp
        from "1.IH" [OF False Cons over this] Cons show ?thesis by simp
      qed
    qed
  qed
qed

lemma find_marker_consumes:
  assumes "find_marker ser = (True, ser')"
  shows "length ser' + length MARKER \<le> length ser"
proof -
  from assms obtain buffer r where fill: "find_marker_fill [] ser = Some (buffer, r)"
    and scan: "find_marker_scan buffer r = (True, ser')"
    by (auto simp: find_marker_def split: option.splits)
  from find_marker_fill_length [OF fill] find_marker_scan_length [OF scan]
  show ?thesis by simp
qed

text \<open>
  \<open>_read_packet\<close>: six bytes are read and compared with the marker. On a mismatch a
  warning is queued, \<open>_find_marker\<close> runs, and on its success \<open>_read_packet\<close> calls itself.
  The result is the returned packet (\<open>None\<close> for Python's \<open>None\<close>), the bytes left on the
  port and the warnings queued.

  The first argument is the room that the interpreter's recursion limit leaves on the call
  stack, counted in activations of \<open>_read_packet\<close>, this one included. A call for which
  there is no room raises \<open>RecursionError\<close>; nothing in the acquisition process catches it.
\<close>

fun read_packet ::
  "nat \<Rightarrow> byte list \<Rightarrow> py_error + (byte list option \<times> byte list \<times> acq_status list)" where
  "read_packet 0 ser = Inl Recursion_error"
| "read_packet (Suc frames) ser =
     (let marker = take (length MARKER) ser; ser1 = drop (length MARKER) ser in
      if marker \<noteq> MARKER then
        (let warn = (if length marker = length MARKER then Sync_lost_got marker
                     else Sync_lost_incomplete_marker (length marker)) in
         case find_marker ser1 of
           (True, ser2) \<Rightarrow>
             (case read_packet frames ser2 of
                Inl e \<Rightarrow> Inl e
              | Inr (res, ser3, msgs) \<Rightarrow> Inr (res, ser3, warn # msgs))
         | (False, ser2) \<Rightarrow> Inr (None, ser2, [warn]))
      else
        (let data = take PACKET_DATA_SIZE ser1; ser2 = drop PACKET_DATA_SIZE ser1 in
         if length data \<noteq> PACKET_DATA_SIZE
         then Inr (None, ser2, [Incomplete_packet (length data) PACKET_DATA_SIZE])
         else Inr (Some data, ser2, [])))"

text \<open>Six bytes that are not the marker, used as line noise in front of a frame.\<close>

definition GARBAGE :: "byte list" where
  "GARBAGE = [0x58, 0x58, 0x58, 0x58, 0x58, 0x58]"

text \<open>
  A stream of sustained corruption: \<open>n\<close> times six bytes of noise followed by a marker
  with no payload behind it.
\<close>

fun resync_storm :: "nat \<Rightarrow> byte list" where
  "resync_storm 0 = []"
| "resync_storm (Suc n) = GARBAGE @ MARKER @ resync_storm n"

declare read_packet.simps [simp del]
declare find_marker_fill.simps [simp del] find_marker_scan.simps [simp del]

lemma find_marker_fill_full:
  "length MARKER \<le> length buffer \<Longrightarrow> find_marker_fill buffer ser = Some (buffer, ser)"
  by (simp add: find_marker_fill.simps)

lemma find_marker_fill_step:
  "length buffer < length MARKER \<Longrightarrow>
     find_marker_fill buffer (b # ser) = find_marker_fill (buffer @ [b]) ser"
  by (subst find_marker_fill.simps) simp

lemma find_marker_fill_take:
  "length buffer + length ser \<ge> length MARKER \<Longrightarrow> length buffer \<le> length MARKER \<Longrightarrow>
   find_marker_fill buffer ser =
     Some (buffer @ take (length MARKER - length buffer) ser, drop (length MARKER - length buffer) ser)"
proof (induction ser arbitrary: buffer)
  case Nil
  then show ?case by (simp add: find_marker_fill_full)
next
  case (Cons b ser)
  show ?case
  proof (cases "length buffer < length MARKER")
    case True
    then have "length MARKER - length buffer = Suc (length MARKER - length (buffer @ [b]))"
      by simp
    with Cons.IH [of "buffer @ [b]"] Cons.prems True show ?thesis
      by (simp add: find_marker_fill_step)
  next
    case False
    with Cons.prems show ?thesis by (simp add: find_marker_fill_full)
  qed
qed

lemma find_marker_at_marker: "find_marker (MARKER @ ser) = (True, ser)"
proof -
  have "find_marker_fill [] (MARKER @ ser) = Some (MARKER, ser)"
    using find_marker_fill_take [of "[]" "MARKER @ ser"] by simp
  then show ?thesis
    by (simp add: find_marker_def find_marker_scan.simps)
qed

lemma find_marker_empty: "find_marker [] = (False, [])"
  by (simp add: find_marker_def find_marker_fill.simps MARKER_def)

lemma M_in_MARKER: "0x4D \<in> set MARKER"
  by (simp add: MARKER_def)

lemma find_marker_scan_no_M:
  "0x4D \<notin> set buffer \<Longrightarrow> 0x4D \<notin> set ser \<Longrightarrow> fst (find_marker_scan buffer ser) = False"
proof (induction ser arbitrary: buffer)
  case Nil
  have "drop (length buffer - length MARKER) buffer \<noteq> MARKER"
    using Nil.prems(1) M_in_MARKER set_drop_subset [of "length buffer - length MARKER" buffer]
    by auto
  then show ?case by (simp add: find_marker_scan.simps)
next
  case (Cons b ser)
  have "drop (length buffer - length MARKER) buffer \<noteq> MARKER"
    using Cons.prems(1) M_in_MARKER set_drop_subset [of "length buffer - length MARKER" buffer]
    by auto
  moreover have "fst (find_marker_scan (buffer @ [b]) ser) = False"
    using Cons.prems by (intro Cons.IH) auto
  ultimately show ?case
    by (subst find_marker_scan.simps) simp
qed

lemma find_marker_no_M:
  assumes "0x4D \<notin> set ser"
  shows "fst (find_marker ser) = False"
proof (cases "find_marker_fill [] ser")
  case None
  then show ?thesis by (simp add: find_marker_def)
next
  case (Some p)
  obtain buffer r where p: "p = (buffer, r)" by (cases p)
  have "length ser \<ge> length MARKER"
    using find_marker_fill_length [of "[]" ser buffer r] Some p by simp
  then have "buffer = take (length MARKER) ser" "r = drop (length MARKER) ser"
    using find_marker_fill_take [of "[]" ser] Some p by simp_all
  then have "0x4D \<notin> set buffer" "0x4D \<notin> set r"
    using assms by (auto dest: in_set_takeD in_set_dropD)
  then show ?thesis
    using Some p by (simp add: find_marker_def find_marker_scan_no_M)
qed

lemma read_packet_no_M:
  assumes "0x4D \<notin> set ser"
  shows "\<exists>ser' msgs. read_packet (Suc frames) ser = Inr (None, ser', msgs)"
proof -
  have "take (length MARKER) ser \<noteq> MARKER"
    using assms M_in_MARKER by (metis in_set_takeD)
  moreover have "fst (find_marker (drop (length MARKER) ser)) = False"
    using assms by (intro find_marker_no_M) (auto dest: in_set_dropD)
  ultimately show ?thesis
    by (subst read_packet.simps) (auto simp: Let_def split: prod.splits)
qed

lemma read_packet_resync:
  assumes "length g = length MARKER" and "g \<noteq> MARKER"
  shows "read_packet (Suc frames) (g @ MARKER @ r) =
    (case read_packet frames r of
       Inl e \<Rightarrow> Inl e
     | Inr (res, s, msgs) \<Rightarrow> Inr (res, s, Sync_lost_got g # msgs))"
  using assms by (subst read_packet.simps) (simp add: Let_def find_marker_at_marker)

lemma read_packet_in_sync:
  assumes "length data = PACKET_DATA_SIZE"
  shows "read_packet (Suc frames) (MARKER @ data @ r) = Inr (Some data, r, [])"
  using assms by (subst read_packet.simps) (simp add: Let_def)

lemma GARBAGE_no_marker: "length GARBAGE = length MARKER" "GARBAGE \<noteq> MARKER"
  by (simp_all add: MARKER_def GARBAGE_def)

text \<open>
  With more room than a twelfth of the bytes on the port, \<open>_read_packet\<close> returns: every
  nested call is preceded by a failed marker read of six bytes and a marker search that
  consumed at least six more.
\<close>

lemma read_packet_returns:
  "length ser div 12 < frames \<Longrightarrow> \<exists>r. read_packet frames ser = Inr r"
proof (induction frames arbitrary: ser)
  case 0
  then show ?case by simp
next
  case (Suc frames)
  show ?case
  proof (cases "take (length MARKER) ser \<noteq> MARKER")
    case False
    then show ?thesis by (subst read_packet.simps) (simp add: Let_def)
  next
    case True
    obtain found ser2 where fm: "find_marker (drop (length MARKER) ser) = (found, ser2)"
      by (cases "find_marker (drop (length MARKER) ser)")
    show ?thesis
    proof (cases found)
      case False
      with True fm show ?thesis by (subst read_packet.simps) (simp add: Let_def)
    next
      case found: True
      from fm found have "find_marker (drop (length MARKER) ser) = (True, ser2)" by simp
      from find_marker_consumes [OF this]
      have "length ser2 + length MARKER \<le> length (drop (length MARKER) ser)" .
      then have "length ser2 + 12 \<le> length ser" by (simp add: MARKER_def)
      then have "(length ser2 + 12) div 12 \<le> length ser div 12" by (rule div_le_mono)
      then have "length ser2 div 12 < frames" using Suc.prems by simp
      from Suc.IH [OF this] obtain r where "read_packet frames ser2 = Inr r" ..
      with True fm found show ?thesis
        by (subst read_packet.simps) (auto simp: Let_def split: prod.splits)
    qed
  qed
qed

text \<open>
  C1 (the code at the failing input). The stream is six bytes of noise, then the marker,
  then a valid payload of 1536 zero bytes. The claim has the reader resume framing behind
  the marker it found and return that payload. The code, after \<open>_find_marker\<close> has
  consumed the marker, calls \<open>_read_packet\<close>, which reads six bytes of the payload as a
  marker, fails again, searches the payload for a marker and returns no packet. This
  needs room for two activations only.
\<close>

theorem resync_skips_payload:
  "\<exists>ser' msgs.
     read_packet (Suc (Suc frames)) (GARBAGE @ MARKER @ replicate 1536 0) = Inr (None, ser', msgs)"
proof -
  have "0x4D \<notin> set (replicate 1536 (0::byte))" by simp
  from read_packet_no_M [OF this, of frames] obtain ser' msgs
    where "read_packet (Suc frames) (replicate 1536 0) = Inr (None, ser', msgs)" by blast
  then show ?thesis
    by (simp add: read_packet_resync [OF GARBAGE_no_marker])
qed

text \<open>
  C8 (the code at the failing input). The reader is not iterative: it calls itself once
  for every resynchronization, so its stack use grows with the stream. On sustained
  corruption with at least as many noise-and-marker pairs as the call stack has room for
  activations, \<open>_read_packet\<close> raises \<open>RecursionError\<close>.
\<close>

theorem read_packet_recursion_error:
  "read_packet frames (resync_storm (frames + m)) = Inl Recursion_error"
proof (induction frames)
  case 0
  show ?case by (simp add: read_packet.simps)
next
  case (Suc frames)
  then show ?case by (simp add: read_packet_resync [OF GARBAGE_no_marker])
qed

text \<open>With room for 1000 activations, CPython's default limit, 1200 pairs are enough.\<close>

lemma read_packet_default_limit:
  "read_packet 1000 (resync_storm 1200) = Inl Recursion_error"
  using read_packet_recursion_error [of 1000 200] by simp


section \<open>Segmentation windower (deploy\_segmentation.py)\<close>

text \<open>
  A sample is a pair of a 32-bit timestamp and a 16-bit ADC value, as \<open>struct.unpack('<IH')\<close>
  and the \<open>uint32\<close>/\<open>uint16\<close> arrays hold them. Counters and indices are Python integers
  that only count up from 0: they are natural numbers here.
\<close>

type_synonym sample = "32 word \<times> 16 word"

definition SEGMENT_SIZE :: nat where
  "SEGMENT_SIZE = 1024"

definition OVERLAP_SIZE :: nat where
  "OVERLAP_SIZE = 256"

text \<open>Python's \<open>xs[a:b]\<close> for indices \<open>0 \<le> a\<close> and \<open>0 \<le> b\<close>: empty when \<open>b \<le> a\<close>.\<close>

definition py_slice :: "nat \<Rightarrow> nat \<Rightarrow> 'a list \<Rightarrow> 'a list" where
  "py_slice a b xs = take (b - a) (drop a xs)"

text \<open>Little-endian decoding of four and of two bytes.\<close>

definition le32 :: "byte \<Rightarrow> byte \<Rightarrow> byte \<Rightarrow> byte \<Rightarrow> 32 word" where
  "le32 b0 b1 b2 b3 =
     word_of_nat (unat b0 + 2 ^ 8 * unat b1 + 2 ^ 16 * unat b2 + 2 ^ 24 * unat b3)"

definition le16 :: "byte \<Rightarrow> byte \<Rightarrow> 16 word" where
  "le16 b0 b1 = word_of_nat (unat b0 + 2 ^ 8 * unat b1)"

text \<open>
  \<open>_unpack_packet\<close>: the bytes are cut into chunks of six from the left, and each chunk is
  unpacked; \<open>struct.unpack\<close> raises on a last chunk shorter than six bytes.
\<close>

fun unpack_packet :: "byte list \<Rightarrow> py_error + sample list" where
  "unpack_packet [] = Inr []"
| "unpack_packet (b0 # b1 # b2 # b3 # b4 # b5 # packet_data) =
     (case unpack_packet packet_data of
        Inl e \<Rightarrow> Inl e
      | Inr samples \<Rightarrow> Inr ((le32 b0 b1 b2 b3, le16 b4 b5) # samples))"
| "unpack_packet _ = Inl Struct_error"

text \<open>
  The dictionaries that travel on the queues. The segment of the windower and the processed
  segment of the filter stage share five keys; they are the fields of a common record that
  each of the two extends.
\<close>

record window_header =
  segment_id :: nat
  timestamp_ms :: "32 word list"
  start_time :: "32 word"
  end_time :: "32 word"
  sample_count :: nat

record segment = window_header +
  extended_timestamp_ms :: "32 word list"
  extended_adc_value :: "16 word list"
  core_start_idx :: nat
  core_end_idx :: nat

datatype seg_status =
    Segmentation_started
  | Segments_created nat
  | Segmentation_error py_error

record seg_state =
  segment_buffer :: "sample list"
  overlap_buffer :: "sample list"
  segment_count :: nat
  segment_queue :: "segment list"
  seg_status_queue :: "seg_status list"

definition seg_init :: seg_state where
  "seg_init = \<lparr>segment_buffer = [], overlap_buffer = [], segment_count = 0,
     segment_queue = [], seg_status_queue = []\<rparr>"

text \<open>
  \<open>_create_segment\<close>. Indexing the core timestamps at \<open>[0]\<close> raises when the core slice is
  empty; the state is changed only behind that point.
\<close>

definition create_segment :: "seg_state \<Rightarrow> py_error + (segment \<times> seg_state)" where
  "create_segment st =
     (let extended_samples =
            overlap_buffer st @ take (SEGMENT_SIZE + OVERLAP_SIZE) (segment_buffer st);
          extended_timestamps = map fst extended_samples;
          extended_adc = map snd extended_samples;
          core_start = length (overlap_buffer st);
          core_end = core_start + SEGMENT_SIZE;
          core_timestamps = py_slice core_start core_end extended_timestamps
      in if core_timestamps = [] then Inl Index_error
         else
           Inr (\<lparr>segment_id = segment_count st,
                  timestamp_ms = core_timestamps,
                  start_time = hd core_timestamps,
                  end_time = last core_timestamps,
                  sample_count = SEGMENT_SIZE,
                  extended_timestamp_ms = extended_timestamps,
                  extended_adc_value = extended_adc,
                  core_start_idx = core_start,
                  core_end_idx = core_end\<rparr>,
                st\<lparr>segment_count := segment_count st + 1,
                   overlap_buffer :=
                     py_slice SEGMENT_SIZE (SEGMENT_SIZE + OVERLAP_SIZE) (segment_buffer st),
                   segment_buffer := drop SEGMENT_SIZE (segment_buffer st)\<rparr>))"

text \<open>
  One turn of \<open>segmentation_loop\<close> that dequeued a packet: unpack, extend the buffer, and cut
  at most one segment. An exception anywhere in the turn is caught and reported.
\<close>

definition segmentation_step :: "seg_state \<Rightarrow> byte list \<Rightarrow> seg_state" where
  "segmentation_step st packet_data =
     (case unpack_packet packet_data of
        Inl e \<Rightarrow> st\<lparr>seg_status_queue := seg_status_queue st @ [Segmentation_error e]\<rparr>
      | Inr samples \<Rightarrow>
          (let st1 = st\<lparr>segment_buffer := segment_buffer st @ samples\<rparr> in
           if length (segment_buffer st1) \<ge> SEGMENT_SIZE + OVERLAP_SIZE then
             (case create_segment st1 of
                Inl e \<Rightarrow>
                  st1\<lparr>seg_status_queue := seg_status_queue st1 @ [Segmentation_error e]\<rparr>
              | Inr (segment, st2) \<Rightarrow>
                  (let st3 = st2\<lparr>segment_queue := segment_queue st2 @ [segment]\<rparr> in
                   if segment_count st3 mod 10 = 0
                   then st3\<lparr>seg_status_queue :=
                          seg_status_queue st3 @ [Segments_created (segment_count st3)]\<rparr>
                   else st3))
           else st1))"

text \<open>The loop over the packets that arrive on the packet queue, in their order.\<close>

definition segmentation_loop :: "byte list list \<Rightarrow> seg_state \<Rightarrow> seg_state" where
  "segmentation_loop packets st =
     foldl segmentation_step
       (st\<lparr>seg_status_queue := seg_status_queue st @ [Segmentation_started]\<rparr>) packets"

text \<open>The samples a list of packets adds to the buffer: a packet that fails to unpack adds none.\<close>

definition decoded :: "byte list list \<Rightarrow> sample list" where
  "decoded packets =
     concat (map (\<lambda>p. case unpack_packet p of Inl e \<Rightarrow> [] | Inr samples \<Rightarrow> samples) packets)"

text \<open>
  The extended samples of the \<open>i\<close>-th window cut from a stream of samples: the first window
  has no leading overlap; every later one starts with the 256 samples at the front of the
  buffer it is cut from, followed by the first 1280 samples of that same buffer.
\<close>

definition extended_at :: "sample list \<Rightarrow> nat \<Rightarrow> sample list" where
  "extended_at samples i =
     (if i = 0 then [] else py_slice (SEGMENT_SIZE * i) (SEGMENT_SIZE * i + OVERLAP_SIZE) samples)
     @ py_slice (SEGMENT_SIZE * i) (SEGMENT_SIZE * i + SEGMENT_SIZE + OVERLAP_SIZE) samples"

definition core_at :: "sample list \<Rightarrow> nat \<Rightarrow> sample list" where
  "core_at samples i = py_slice (SEGMENT_SIZE * i) (SEGMENT_SIZE * i + SEGMENT_SIZE) samples"

definition segment_at :: "sample list \<Rightarrow> nat \<Rightarrow> segment" where
  "segment_at samples i =
     \<lparr>segment_id = i,
      timestamp_ms = map fst (core_at samples i),
      start_time = hd (map fst (core_at samples i)),
      end_time = last (map fst (core_at samples i)),
      sample_count = SEGMENT_SIZE,
      extended_timestamp_ms = map fst (extended_at samples i),
      extended_adc_value = map snd (extended_at samples i),
      core_start_idx = (if i = 0 then 0 else OVERLAP_SIZE),
      core_end_idx = (if i = 0 then 0 else OVERLAP_SIZE) + SEGMENT_SIZE\<rparr>"

text \<open>
  The state of the windower after it has cut \<open>K\<close> windows from the samples \<open>S\<close> decoded so
  far: the buffer holds the samples from position \<open>1024 K\<close> on, the overlap buffer the 256
  samples at the front of that buffer (nothing before the first cut), and the queue the
  \<open>K\<close> windows in the order of their cuts.
\<close>

definition windowed :: "sample list \<Rightarrow> nat \<Rightarrow> seg_state \<Rightarrow> bool" where
  "windowed S K st \<longleftrightarrow>
     segment_count st = K \<and>
     segment_buffer st = drop (SEGMENT_SIZE * K) S \<and>
     overlap_buffer st =
       (if K = 0 then [] else py_slice (SEGMENT_SIZE * K) (SEGMENT_SIZE * K + OVERLAP_SIZE) S) \<and>
     segment_queue st = map (segment_at S) [0..<K]"

text \<open>The windows on the segment queue after the loop has run on the packets from a fresh state.\<close>

definition windows_of :: "byte list list \<Rightarrow> segment list" where
  "windows_of packets = segment_queue (segmentation_loop packets seg_init)"

text \<open>A packet payload of 256 samples, all of them zero.\<close>

definition ZERO_PACKET :: "byte list" where
  "ZERO_PACKET = replicate 1536 0"

text \<open>
  Test data with a visible order: the sample at position \<open>k\<close> of the stream has timestamp
  \<open>k\<close> and ADC value \<open>k\<close> (for \<open>k < 65536\<close>).
\<close>

definition ramp_sample_bytes :: "nat \<Rightarrow> byte list" where
  "ramp_sample_bytes k =
     [word_of_nat (k mod 256), word_of_nat (k div 256), 0, 0,
      word_of_nat (k mod 256), word_of_nat (k div 256)]"


definition RAMP_PACKETS :: "nat \<Rightarrow> byte list list" where
  "RAMP_PACKETS n =
     map (\<lambda>p. concat (map ramp_sample_bytes [256 * p..<256 * p + 256])) [0..<n]"

lemma py_slice_append_stable:
  "b \<le> length xs \<Longrightarrow> py_slice a b (xs @ ys) = py_slice a b xs"
  by (simp add: py_slice_def)

lemma length_py_slice:
  "b \<le> length xs \<Longrightarrow> length (py_slice a b xs) = b - a"
  by (simp add: py_slice_def)

lemma py_slice_map: "py_slice a b (map f xs) = map f (py_slice a b xs)"
  by (simp add: py_slice_def take_map drop_map)

lemma unpack_packet_total:
  "length p mod 6 = 0 \<Longrightarrow> \<exists>samples. unpack_packet p = Inr samples \<and> 6 * length samples = length p"
  by (induction p rule: unpack_packet.induct) auto

lemma unpack_packet_256:
  assumes "length p = PACKET_DATA_SIZE"
  obtains samples where "unpack_packet p = Inr samples" and "length samples = 256"
proof -
  from assms have "length p mod 6 = 0" by (simp add: PACKET_DATA_SIZE_def BUFFER_SIZE_def)
  from unpack_packet_total [OF this] obtain samples
    where "unpack_packet p = Inr samples" and "6 * length samples = length p" by blast
  with assms that show thesis by (simp add: PACKET_DATA_SIZE_def BUFFER_SIZE_def)
qed


lemma create_segment_at:
  assumes buf: "segment_buffer st = drop (SEGMENT_SIZE * K) S"
    and ov: "overlap_buffer st =
              (if K = 0 then [] else py_slice (SEGMENT_SIZE * K) (SEGMENT_SIZE * K + OVERLAP_SIZE) S)"
    and cnt: "segment_count st = K"
    and len: "SEGMENT_SIZE * K + SEGMENT_SIZE + OVERLAP_SIZE \<le> length S"
  shows "create_segment st =
     Inr (segment_at S K,
          st\<lparr>segment_count := K + 1,
             overlap_buffer :=
               py_slice (SEGMENT_SIZE * (K + 1)) (SEGMENT_SIZE * (K + 1) + OVERLAP_SIZE) S,
             segment_buffer := drop (SEGMENT_SIZE * (K + 1)) S\<rparr>)"
proof -
  let ?B = "drop (SEGMENT_SIZE * K) S"
  have lenB: "SEGMENT_SIZE + OVERLAP_SIZE \<le> length ?B" using len by simp
  have ext: "overlap_buffer st @ take (SEGMENT_SIZE + OVERLAP_SIZE) ?B = extended_at S K"
    using ov by (simp add: extended_at_def py_slice_def add.assoc)
  have lov: "length (overlap_buffer st) = (if K = 0 then 0 else OVERLAP_SIZE)"
    using ov len by (simp add: py_slice_def)
  have core: "py_slice (length (overlap_buffer st)) (length (overlap_buffer st) + SEGMENT_SIZE)
                (map fst (extended_at S K)) = map fst (core_at S K)"
  proof -
    have "py_slice (length (overlap_buffer st)) (length (overlap_buffer st) + SEGMENT_SIZE)
            (overlap_buffer st @ take (SEGMENT_SIZE + OVERLAP_SIZE) ?B)
          = take SEGMENT_SIZE ?B"
      by (simp add: py_slice_def min_def)
    also have "\<dots> = core_at S K"
      by (simp add: core_at_def py_slice_def)
    finally show ?thesis
      unfolding ext py_slice_map by simp
  qed
  have ne: "map fst (core_at S K) \<noteq> []"
    using len by (auto simp: core_at_def py_slice_def SEGMENT_SIZE_def)
  have ov': "py_slice SEGMENT_SIZE (SEGMENT_SIZE + OVERLAP_SIZE) ?B
      = py_slice (SEGMENT_SIZE * (K + 1)) (SEGMENT_SIZE * (K + 1) + OVERLAP_SIZE) S"
    by (simp add: py_slice_def add.commute)
  have buf': "drop SEGMENT_SIZE ?B = drop (SEGMENT_SIZE * (K + 1)) S"
    by (simp add: add.commute)
  show ?thesis
    unfolding create_segment_def Let_def buf ext core ov' buf'
    using ne lov cnt by (simp add: segment_at_def)
qed


lemma segment_at_append_stable:
  assumes "SEGMENT_SIZE * i + SEGMENT_SIZE + OVERLAP_SIZE \<le> length S"
  shows "segment_at (S @ s) i = segment_at S i"
proof -
  have "extended_at (S @ s) i = extended_at S i"
    using assms by (simp add: extended_at_def py_slice_append_stable)
  moreover have "core_at (S @ s) i = core_at S i"
    using assms by (simp add: core_at_def py_slice_append_stable)
  ultimately show ?thesis by (simp add: segment_at_def)
qed

lemma window_count_bounds:
  fixes n :: nat
  defines "K \<equiv> (n - 1) div 4"
  shows "1024 * K \<le> 256 * n"
    and "0 < K \<Longrightarrow> 1024 * K + 256 \<le> 256 * n"
    and "i < K \<Longrightarrow> 1024 * i + 1280 \<le> 256 * n"
    and "1024 * K + 1280 \<le> 256 * (n + 1) \<Longrightarrow> n div 4 = K + 1"
    and "\<not> 1024 * K + 1280 \<le> 256 * (n + 1) \<Longrightarrow> n div 4 = K"
proof -
  obtain r where eq: "n - 1 = 4 * K + r" and lt: "r < 4"
  proof
    show "n - 1 = 4 * K + (n - 1) mod 4" unfolding K_def by simp
    show "(n - 1) mod 4 < 4" by simp
  qed
  from eq show "1024 * K \<le> 256 * n" by linarith
  show "1024 * K + 256 \<le> 256 * n" if "0 < K"
    using that eq by linarith
  show "1024 * i + 1280 \<le> 256 * n" if "i < K"
    using that eq by linarith
  show "n div 4 = K + 1" if "1024 * K + 1280 \<le> 256 * (n + 1)"
  proof (rule div_nat_eqI)
    show "4 * (K + 1) \<le> n" using that by simp
    show "n < 4 * Suc (K + 1)" using eq lt by arith
  qed
  show "n div 4 = K" if "\<not> 1024 * K + 1280 \<le> 256 * (n + 1)"
  proof (rule div_nat_eqI)
    show "4 * K \<le> n" using eq by linarith
    show "n < 4 * Suc K" using that by simp
  qed
qed


lemma decoded_snoc:
  "unpack_packet p = Inr samples \<Longrightarrow> decoded (ps @ [p]) = decoded ps @ samples"
  by (simp add: decoded_def)

lemma segmentation_step_no_cut:
  assumes "unpack_packet p = Inr samples"
    and "\<not> SEGMENT_SIZE + OVERLAP_SIZE \<le> length (segment_buffer st @ samples)"
  shows "segmentation_step st p = st\<lparr>segment_buffer := segment_buffer st @ samples\<rparr>"
  using assms by (simp add: segmentation_step_def)

lemma segmentation_step_cut:
  assumes "unpack_packet p = Inr samples"
    and "SEGMENT_SIZE + OVERLAP_SIZE \<le> length (segment_buffer st @ samples)"
    and "create_segment (st\<lparr>segment_buffer := segment_buffer st @ samples\<rparr>) = Inr (seg, st2)"
  shows "segment_count (segmentation_step st p) = segment_count st2"
    and "segment_buffer (segmentation_step st p) = segment_buffer st2"
    and "overlap_buffer (segmentation_step st p) = overlap_buffer st2"
    and "segment_queue (segmentation_step st p) = segment_queue st2 @ [seg]"
  using assms by (simp_all add: segmentation_step_def Let_def)

lemma windower_invariant:
  assumes st0: "windowed [] 0 st0"
    and ps: "\<forall>p\<in>set ps. length p = PACKET_DATA_SIZE"
  shows "length (decoded ps) = 256 * length ps \<and>
         windowed (decoded ps) ((length ps - 1) div 4) (foldl segmentation_step st0 ps)"
  using ps
proof (induction ps rule: rev_induct)
  case Nil
  from st0 show ?case by (simp add: decoded_def)
next
  case (snoc p ps)
  let ?n = "length ps"
  let ?K = "(?n - 1) div 4"
  let ?S = "decoded ps"
  let ?st = "foldl segmentation_step st0 ps"
  from snoc.prems have lp: "length p = PACKET_DATA_SIZE" by simp
  from snoc.prems snoc.IH have lenS: "length ?S = 256 * ?n" and inv: "windowed ?S ?K ?st"
    by simp_all
  from lp obtain samples where up: "unpack_packet p = Inr samples" and ls: "length samples = 256"
    by (rule unpack_packet_256)
  let ?S' = "?S @ samples"
  have dec: "decoded (ps @ [p]) = ?S'" by (rule decoded_snoc [OF up])
  have lenS': "length ?S' = 256 * (?n + 1)" using lenS ls by simp
  have b1: "SEGMENT_SIZE * ?K \<le> length ?S"
    using window_count_bounds(1) [of ?n] lenS by (simp add: SEGMENT_SIZE_def)
  have b2: "SEGMENT_SIZE * ?K + OVERLAP_SIZE \<le> length ?S" if "0 < ?K"
    using window_count_bounds(2) [of ?n] that lenS by (simp add: SEGMENT_SIZE_def OVERLAP_SIZE_def)
  have b3: "SEGMENT_SIZE * i + SEGMENT_SIZE + OVERLAP_SIZE \<le> length ?S" if "i < ?K" for i
    using window_count_bounds(3) [of i ?n] that lenS by (simp add: SEGMENT_SIZE_def OVERLAP_SIZE_def)
  have buf: "segment_buffer ?st @ samples = drop (SEGMENT_SIZE * ?K) ?S'"
    using inv b1 by (simp add: windowed_def)
  have ov: "overlap_buffer ?st =
      (if ?K = 0 then [] else py_slice (SEGMENT_SIZE * ?K) (SEGMENT_SIZE * ?K + OVERLAP_SIZE) ?S')"
    using inv b2 by (simp add: windowed_def py_slice_append_stable)
  have queue: "segment_queue ?st = map (segment_at ?S') [0..<?K]"
    using inv b3 by (simp add: windowed_def segment_at_append_stable)
  have cnt: "segment_count ?st = ?K" using inv by (simp add: windowed_def)
  have lenbuf: "length (segment_buffer ?st @ samples) = 256 * (?n + 1) - 1024 * ?K"
    unfolding buf length_drop lenS' SEGMENT_SIZE_def ..
  show ?case
  proof (cases "1024 * ?K + 1280 \<le> 256 * (?n + 1)")
    case True
    then have K': "(length (ps @ [p]) - 1) div 4 = ?K + 1"
      using window_count_bounds(4) [of ?n] by simp
    from True have full: "SEGMENT_SIZE + OVERLAP_SIZE \<le> length (segment_buffer ?st @ samples)"
      unfolding lenbuf by (simp add: SEGMENT_SIZE_def OVERLAP_SIZE_def)
    let ?st1 = "?st\<lparr>segment_buffer := segment_buffer ?st @ samples\<rparr>"
    from True have len: "SEGMENT_SIZE * ?K + SEGMENT_SIZE + OVERLAP_SIZE \<le> length ?S'"
      unfolding lenS' by (simp add: SEGMENT_SIZE_def OVERLAP_SIZE_def)
    have cs: "create_segment ?st1 =
       Inr (segment_at ?S' ?K,
            ?st1\<lparr>segment_count := ?K + 1,
               overlap_buffer :=
                 py_slice (SEGMENT_SIZE * (?K + 1)) (SEGMENT_SIZE * (?K + 1) + OVERLAP_SIZE) ?S',
               segment_buffer := drop (SEGMENT_SIZE * (?K + 1)) ?S'\<rparr>)"
      by (rule create_segment_at [OF _ _ _ len]) (simp_all add: buf ov cnt)
    have "windowed ?S' (?K + 1) (segmentation_step ?st p)"
      unfolding windowed_def
      using segmentation_step_cut [OF up full cs] queue by simp
    with K' dec lenS' show ?thesis by simp
  next
    case False
    then have K': "(length (ps @ [p]) - 1) div 4 = ?K"
      using window_count_bounds(5) [of ?n] by simp
    from False have nf: "\<not> SEGMENT_SIZE + OVERLAP_SIZE \<le> length (segment_buffer ?st @ samples)"
      unfolding lenbuf using b1 lenS by (simp add: SEGMENT_SIZE_def OVERLAP_SIZE_def)
    have "windowed ?S' ?K (segmentation_step ?st p)"
      unfolding windowed_def segmentation_step_no_cut [OF up nf]
      using buf ov queue cnt by simp
    with K' dec lenS' show ?thesis by simp
  qed
qed


lemma segmentation_loop_windowed:
  assumes "\<forall>p\<in>set packets. length p = PACKET_DATA_SIZE"
  shows "length (decoded packets) = 256 * length packets"
    and "windowed (decoded packets) ((length packets - 1) div 4)
           (segmentation_loop packets seg_init)"
proof -
  have "windowed [] 0 (seg_init\<lparr>seg_status_queue := seg_status_queue seg_init @ [Segmentation_started]\<rparr>)"
    by (simp add: windowed_def seg_init_def)
  from windower_invariant [OF this assms]
  show "length (decoded packets) = 256 * length packets"
    and "windowed (decoded packets) ((length packets - 1) div 4)
           (segmentation_loop packets seg_init)"
    by (simp_all add: segmentation_loop_def)
qed

lemma segmentation_loop_queue:
  assumes "\<forall>p\<in>set packets. length p = PACKET_DATA_SIZE"
  shows "segment_queue (segmentation_loop packets seg_init) =
           map (segment_at (decoded packets)) [0..<(length packets - 1) div 4]"
  using segmentation_loop_windowed(2) [OF assms] by (simp add: windowed_def)

lemma window_in_range:
  assumes "\<forall>p\<in>set packets. length p = PACKET_DATA_SIZE"
    and "i < (length packets - 1) div 4"
  shows "SEGMENT_SIZE * i + SEGMENT_SIZE + OVERLAP_SIZE \<le> length (decoded packets)"
  using window_count_bounds(3) [OF assms(2)] segmentation_loop_windowed(1) [OF assms(1)]
  by (simp add: SEGMENT_SIZE_def OVERLAP_SIZE_def)

lemma length_core_at:
  "SEGMENT_SIZE * i + SEGMENT_SIZE + OVERLAP_SIZE \<le> length S \<Longrightarrow>
     length (core_at S i) = SEGMENT_SIZE"
  by (simp add: core_at_def py_slice_def)

lemma length_extended_at:
  "SEGMENT_SIZE * i + SEGMENT_SIZE + OVERLAP_SIZE \<le> length S \<Longrightarrow>
     length (extended_at S i) =
       (if i = 0 then SEGMENT_SIZE + OVERLAP_SIZE else SEGMENT_SIZE + 2 * OVERLAP_SIZE)"
  by (simp add: extended_at_def py_slice_def)

lemma core_of_extended_at:
  assumes "SEGMENT_SIZE * i + SEGMENT_SIZE + OVERLAP_SIZE \<le> length S"
  shows "py_slice (if i = 0 then 0 else OVERLAP_SIZE) ((if i = 0 then 0 else OVERLAP_SIZE) + SEGMENT_SIZE)
           (extended_at S i) = core_at S i"
  using assms by (simp add: extended_at_def core_at_def py_slice_def min_def)




lemma windows_of_eq:
  assumes "\<forall>p\<in>set packets. length p = PACKET_DATA_SIZE"
  shows "windows_of packets =
           map (segment_at (decoded packets)) [0..<(length packets - 1) div 4]"
  unfolding windows_of_def by (rule segmentation_loop_queue [OF assms])

lemma windows_of_nth:
  assumes "\<forall>p\<in>set packets. length p = PACKET_DATA_SIZE"
    and "i < length (windows_of packets)"
  shows "windows_of packets ! i = segment_at (decoded packets) i"
    and "SEGMENT_SIZE * i + SEGMENT_SIZE + OVERLAP_SIZE \<le> length (decoded packets)"
proof -
  from assms have i: "i < (length packets - 1) div 4"
    by (simp add: windows_of_eq)
  then show "windows_of packets ! i = segment_at (decoded packets) i"
    using assms(1) by (simp add: windows_of_eq)
  from window_in_range [OF assms(1) i]
  show "SEGMENT_SIZE * i + SEGMENT_SIZE + OVERLAP_SIZE \<le> length (decoded packets)" .
qed

lemma zero_packets_ok: "\<forall>p\<in>set (replicate n ZERO_PACKET). length p = PACKET_DATA_SIZE"
  by (simp add: ZERO_PACKET_def PACKET_DATA_SIZE_def BUFFER_SIZE_def)

text \<open>
  C2, as stated, fails: four packets decode to 1024 samples, exactly one full window of
  1024 samples, and the windower emits no window, because a window is cut only once
  1024 + 256 samples are buffered.
\<close>

theorem four_packets_no_window:
  "length (decoded (replicate 4 ZERO_PACKET)) = 1 * SEGMENT_SIZE \<and>
   windows_of (replicate 4 ZERO_PACKET) = []"
  using segmentation_loop_windowed(1) [OF zero_packets_ok [of 4]]
    windows_of_eq [OF zero_packets_ok [of 4]]
  by (simp add: SEGMENT_SIZE_def)

text \<open>
  C2, amended: for \<open>n\<close> packets of 256 samples each, the windower emits exactly
  \<open>(n - 1) div 4\<close> windows; their segment ids are \<open>0, 1, 2, \<dots>\<close> in the order of emission;
  the core of window \<open>i\<close> (its timestamps, and the slice of the extended ADC array between
  the core indices) is the samples \<open>1024 i\<close> to \<open>1024 i + 1023\<close> of the decoded stream, so it
  has exactly 1024 samples; and start and end time are the first and the last timestamp of
  the core.
\<close>

theorem windower_emits:
  assumes "\<forall>p\<in>set packets. length p = PACKET_DATA_SIZE"
  shows "length (windows_of packets) = (length packets - 1) div 4 \<and>
         map segment_id (windows_of packets) = [0..<length (windows_of packets)] \<and>
         (\<forall>i<length (windows_of packets).
            timestamp_ms (windows_of packets ! i) =
              map fst (py_slice (SEGMENT_SIZE * i) (SEGMENT_SIZE * i + SEGMENT_SIZE)
                         (decoded packets)) \<and>
            py_slice (core_start_idx (windows_of packets ! i)) (core_end_idx (windows_of packets ! i))
              (extended_adc_value (windows_of packets ! i)) =
              map snd (py_slice (SEGMENT_SIZE * i) (SEGMENT_SIZE * i + SEGMENT_SIZE)
                         (decoded packets)) \<and>
            length (timestamp_ms (windows_of packets ! i)) = SEGMENT_SIZE \<and>
            sample_count (windows_of packets ! i) = SEGMENT_SIZE \<and>
            start_time (windows_of packets ! i) = hd (timestamp_ms (windows_of packets ! i)) \<and>
            end_time (windows_of packets ! i) = last (timestamp_ms (windows_of packets ! i)))"
proof (intro conjI allI impI)
  show "length (windows_of packets) = (length packets - 1) div 4"
    by (simp add: windows_of_eq [OF assms])
  show "map segment_id (windows_of packets) = [0..<length (windows_of packets)]"
    by (simp add: windows_of_eq [OF assms] segment_at_def comp_def map_idI)
next
  fix i assume i: "i < length (windows_of packets)"
  note nth = windows_of_nth(1) [OF assms i]
  note len = windows_of_nth(2) [OF assms i]
  show "timestamp_ms (windows_of packets ! i) =
      map fst (py_slice (SEGMENT_SIZE * i) (SEGMENT_SIZE * i + SEGMENT_SIZE) (decoded packets))"
    by (simp add: nth segment_at_def core_at_def)
  show "py_slice (core_start_idx (windows_of packets ! i)) (core_end_idx (windows_of packets ! i))
          (extended_adc_value (windows_of packets ! i)) =
        map snd (py_slice (SEGMENT_SIZE * i) (SEGMENT_SIZE * i + SEGMENT_SIZE) (decoded packets))"
    using core_of_extended_at [OF len]
    by (simp add: nth segment_at_def py_slice_map) (simp add: core_at_def)
  show "length (timestamp_ms (windows_of packets ! i)) = SEGMENT_SIZE"
    by (simp add: nth segment_at_def length_core_at [OF len])
  show "sample_count (windows_of packets ! i) = SEGMENT_SIZE"
    by (simp add: nth segment_at_def)
  show "start_time (windows_of packets ! i) = hd (timestamp_ms (windows_of packets ! i))"
    by (simp add: nth segment_at_def)
  show "end_time (windows_of packets ! i) = last (timestamp_ms (windows_of packets ! i))"
    by (simp add: nth segment_at_def)
qed

theorem windower_emits_witness:
  "length (windows_of (replicate 5 ZERO_PACKET)) = 1 \<and>
   map segment_id (windows_of (replicate 5 ZERO_PACKET)) = [0] \<and>
   length (timestamp_ms (windows_of (replicate 5 ZERO_PACKET) ! 0)) = 1024 \<and>
   start_time (windows_of (replicate 5 ZERO_PACKET) ! 0) =
     hd (timestamp_ms (windows_of (replicate 5 ZERO_PACKET) ! 0))"
proof -
  note t = windower_emits [OF zero_packets_ok [of 5]]
  from t have len: "length (windows_of (replicate 5 ZERO_PACKET)) = 1" by simp
  from t have "map segment_id (windows_of (replicate 5 ZERO_PACKET)) =
      [0..<length (windows_of (replicate 5 ZERO_PACKET))]" by blast
  with len have ids: "map segment_id (windows_of (replicate 5 ZERO_PACKET)) = [0]" by simp
  from len have "0 < length (windows_of (replicate 5 ZERO_PACKET))" by simp
  with t have "length (timestamp_ms (windows_of (replicate 5 ZERO_PACKET) ! 0)) = SEGMENT_SIZE"
    and "start_time (windows_of (replicate 5 ZERO_PACKET) ! 0) =
     hd (timestamp_ms (windows_of (replicate 5 ZERO_PACKET) ! 0))" by blast+
  with len ids show ?thesis by (simp add: SEGMENT_SIZE_def)
qed


text \<open>
  C3, as stated, fails for the first window: from five packets the windower cuts one
  window, and its extended array has 1280 samples, not 1536, since the overlap buffer is
  still empty.
\<close>

theorem first_window_extended_length:
  "map (\<lambda>w. length (extended_adc_value w)) (windows_of (replicate 5 ZERO_PACKET)) = [1280]"
proof -
  have len: "length (decoded (replicate 5 ZERO_PACKET)) = 1280"
    using segmentation_loop_windowed(1) [OF zero_packets_ok [of 5]] by simp
  have "windows_of (replicate 5 ZERO_PACKET) = [segment_at (decoded (replicate 5 ZERO_PACKET)) 0]"
    by (simp add: windows_of_eq [OF zero_packets_ok])
  moreover have "length (extended_at (decoded (replicate 5 ZERO_PACKET)) 0) = 1280"
    using len by (simp add: length_extended_at SEGMENT_SIZE_def OVERLAP_SIZE_def)
  ultimately show ?thesis by (simp add: segment_at_def)
qed

text \<open>
  C3, amended: the extended arrays of every window but the first have
  \<open>SEGMENT_SIZE + 2 * OVERLAP_SIZE = 1536\<close> entries, and those of the first window have
  \<open>SEGMENT_SIZE + OVERLAP_SIZE = 1280\<close>.
\<close>

theorem extended_length:
  assumes "\<forall>p\<in>set packets. length p = PACKET_DATA_SIZE"
    and "i < length (windows_of packets)"
  shows "length (extended_adc_value (windows_of packets ! i)) =
           (if i = 0 then SEGMENT_SIZE + OVERLAP_SIZE else SEGMENT_SIZE + 2 * OVERLAP_SIZE) \<and>
         length (extended_timestamp_ms (windows_of packets ! i)) =
           (if i = 0 then SEGMENT_SIZE + OVERLAP_SIZE else SEGMENT_SIZE + 2 * OVERLAP_SIZE)"
  using length_extended_at [OF windows_of_nth(2) [OF assms]]
  by (simp add: windows_of_nth(1) [OF assms] segment_at_def)

theorem extended_length_witness:
  "length (extended_adc_value (windows_of (replicate 9 ZERO_PACKET) ! 1)) = 1536 \<and>
   length (extended_adc_value (windows_of (replicate 9 ZERO_PACKET) ! 0)) = 1280"
proof -
  have len: "length (windows_of (replicate 9 ZERO_PACKET)) = 2"
    by (simp add: windows_of_eq [OF zero_packets_ok])
  then have "1 < length (windows_of (replicate 9 ZERO_PACKET))"
    and "0 < length (windows_of (replicate 9 ZERO_PACKET))" by simp_all
  from extended_length [OF zero_packets_ok this(1)] extended_length [OF zero_packets_ok this(2)]
  show ?thesis by (simp add: SEGMENT_SIZE_def OVERLAP_SIZE_def)
qed






lemma length_RAMP_PACKETS [simp]: "length (RAMP_PACKETS n) = n"
  by (simp add: RAMP_PACKETS_def)













section \<open>Filter cascade (deploy\_filtering.py)\<close>

text \<open>
  Floating-point values: a finite value is the real number it stands for, and the three
  special values of IEEE arithmetic are kept, since numpy's array arithmetic produces them
  without raising. The sign of a zero is not modelled.

  The rounding of the floating-point format is a parameter of the arithmetic: \<open>rnd\<close> maps
  the exact result of an operation on finite values to what the format returns for it, the
  nearest value it can represent or an infinity when the result is out of range.
\<close>

datatype npfloat = Num real | Nan | Pos_inf | Neg_inf

type_synonym rounding = "real \<Rightarrow> npfloat"

fun f_add :: "rounding \<Rightarrow> npfloat \<Rightarrow> npfloat \<Rightarrow> npfloat" where
  "f_add rnd Nan _ = Nan"
| "f_add rnd _ Nan = Nan"
| "f_add rnd (Num x) (Num y) = rnd (x + y)"
| "f_add rnd Pos_inf Neg_inf = Nan"
| "f_add rnd Neg_inf Pos_inf = Nan"
| "f_add rnd Pos_inf _ = Pos_inf"
| "f_add rnd Neg_inf _ = Neg_inf"
| "f_add rnd (Num x) Pos_inf = Pos_inf"
| "f_add rnd (Num x) Neg_inf = Neg_inf"

fun f_neg :: "npfloat \<Rightarrow> npfloat" where
  "f_neg (Num x) = Num (- x)"
| "f_neg Nan = Nan"
| "f_neg Pos_inf = Neg_inf"
| "f_neg Neg_inf = Pos_inf"

definition f_sub :: "rounding \<Rightarrow> npfloat \<Rightarrow> npfloat \<Rightarrow> npfloat" where
  "f_sub rnd a b = f_add rnd a (f_neg b)"

text \<open>Division of arrays in numpy: a zero divisor gives an infinity or NaN, not an exception.\<close>

fun f_div :: "rounding \<Rightarrow> npfloat \<Rightarrow> npfloat \<Rightarrow> npfloat" where
  "f_div rnd Nan _ = Nan"
| "f_div rnd _ Nan = Nan"
| "f_div rnd (Num x) (Num y) =
     (if y \<noteq> 0 then rnd (x / y)
      else if x = 0 then Nan else if 0 < x then Pos_inf else Neg_inf)"
| "f_div rnd (Num x) _ = Num 0"
| "f_div rnd Pos_inf (Num y) = (if 0 \<le> y then Pos_inf else Neg_inf)"
| "f_div rnd Neg_inf (Num y) = (if 0 \<le> y then Neg_inf else Pos_inf)"
| "f_div rnd _ _ = Nan"

fun f_less :: "npfloat \<Rightarrow> npfloat \<Rightarrow> bool" where
  "f_less (Num x) (Num y) = (x < y)"
| "f_less Neg_inf (Num y) = True"
| "f_less Neg_inf Pos_inf = True"
| "f_less (Num x) Pos_inf = True"
| "f_less _ _ = False"

text \<open>
  \<open>np.min\<close> and \<open>np.max\<close>: a \<open>ValueError\<close> on an empty array, NaN when the array holds a NaN.
\<close>

definition np_min :: "npfloat list \<Rightarrow> py_error + npfloat" where
  "np_min xs =
     (if xs = [] then Inl Value_error
      else if Nan \<in> set xs then Inr Nan
      else Inr (foldl (\<lambda>m x. if f_less x m then x else m) (hd xs) (tl xs)))"

definition np_max :: "npfloat list \<Rightarrow> py_error + npfloat" where
  "np_max xs =
     (if xs = [] then Inl Value_error
      else if Nan \<in> set xs then Inr Nan
      else Inr (foldl (\<lambda>m x. if f_less m x then x else m) (hd xs) (tl xs)))"

definition ADC_RESOLUTION :: nat where "ADC_RESOLUTION = 16"
definition FIR_PASSBAND_HZ :: real where "FIR_PASSBAND_HZ = 150"
definition FIR_STOPBAND_HZ :: real where "FIR_STOPBAND_HZ = 180"
definition FIR_PASSBAND_RIPPLE_DB :: real where "FIR_PASSBAND_RIPPLE_DB = 0.5"
definition FIR_STOPBAND_ATTEN_DB :: real where "FIR_STOPBAND_ATTEN_DB = 40"
definition HPF_PASSBAND_HZ :: real where "HPF_PASSBAND_HZ = 1.0"
definition HPF_STOPBAND_HZ :: real where "HPF_STOPBAND_HZ = 0.05"
definition HPF_PASSBAND_RIPPLE_DB :: real where "HPF_PASSBAND_RIPPLE_DB = 0.5"
definition HPF_STOPBAND_ATTEN_DB :: real where "HPF_STOPBAND_ATTEN_DB = 40"
definition NOTCH_FREQ_HZ :: real where "NOTCH_FREQ_HZ = 61.0"
definition NOTCH_Q :: real where "NOTCH_Q = 10.0"
definition SAMPLE_RATE_HZ :: real where "SAMPLE_RATE_HZ = 360"

text \<open>
  The functions of \<open>scipy.signal\<close> that the stage calls are not part of the repository:
  they are parameters of the model. Each takes the arguments the code passes and returns
  its result or raises.
\<close>

record scipy =
  iirnotch :: "real \<Rightarrow> real \<Rightarrow> real \<Rightarrow> py_error + (npfloat list \<times> npfloat list)"
  remez :: "int \<Rightarrow> real list \<Rightarrow> real list \<Rightarrow> real \<Rightarrow> real list \<Rightarrow> py_error + npfloat list"
  ellipord :: "real \<Rightarrow> real \<Rightarrow> real \<Rightarrow> real \<Rightarrow> py_error + (int \<times> npfloat)"
  ellip :: "int \<Rightarrow> real \<Rightarrow> real \<Rightarrow> npfloat \<Rightarrow> py_error + (npfloat list \<times> npfloat list)"
  filtfilt :: "npfloat list \<Rightarrow> npfloat list \<Rightarrow> npfloat list \<Rightarrow> py_error + npfloat list"

definition fir_numtaps :: int where
  "fir_numtaps =
     (let nyquist = SAMPLE_RATE_HZ / 2;
          width = (FIR_STOPBAND_HZ - FIR_PASSBAND_HZ) / nyquist;
          numtaps = \<lceil>(FIR_STOPBAND_ATTEN_DB - 7.95) / (2.285 * width * pi)\<rceil> + 1
      in if numtaps mod 2 = 0 then numtaps + 1 else numtaps)"

definition apply_fir_lowpass :: "scipy \<Rightarrow> npfloat list \<Rightarrow> py_error + npfloat list" where
  "apply_fir_lowpass sp signal_data =
     (let nyquist = SAMPLE_RATE_HZ / 2;
          bands = [0, FIR_PASSBAND_HZ, FIR_STOPBAND_HZ, nyquist];
          desired = [1, 0];
          passband_weight = 1.0;
          stopband_weight = 10 powr (FIR_STOPBAND_ATTEN_DB / 20)
      in case remez sp fir_numtaps bands desired SAMPLE_RATE_HZ [passband_weight, stopband_weight] of
           Inl e \<Rightarrow> Inl e
         | Inr b \<Rightarrow> filtfilt sp b [Num 1] signal_data)"

definition apply_iir_highpass :: "scipy \<Rightarrow> npfloat list \<Rightarrow> py_error + npfloat list" where
  "apply_iir_highpass sp signal_data =
     (let nyquist = SAMPLE_RATE_HZ / 2;
          wp = HPF_PASSBAND_HZ / nyquist;
          ws = HPF_STOPBAND_HZ / nyquist
      in case ellipord sp wp ws HPF_PASSBAND_RIPPLE_DB HPF_STOPBAND_ATTEN_DB of
           Inl e \<Rightarrow> Inl e
         | Inr (N, Wn) \<Rightarrow>
             (case ellip sp N HPF_PASSBAND_RIPPLE_DB HPF_STOPBAND_ATTEN_DB Wn of
                Inl e \<Rightarrow> Inl e
              | Inr (b, a) \<Rightarrow> filtfilt sp b a signal_data))"

definition apply_notch_filter :: "scipy \<Rightarrow> npfloat list \<Rightarrow> py_error + npfloat list" where
  "apply_notch_filter sp signal_data =
     (case iirnotch sp NOTCH_FREQ_HZ NOTCH_Q SAMPLE_RATE_HZ of
        Inl e \<Rightarrow> Inl e
      | Inr (b, a) \<Rightarrow> filtfilt sp b a signal_data)"

text \<open>
  \<open>normalize_segment\<close>. The literal \<open>1e-8\<close> is the value the format has for it.
\<close>

definition normalize_segment :: "rounding \<Rightarrow> npfloat list \<Rightarrow> py_error + npfloat list" where
  "normalize_segment rnd signal_data =
     (case np_min signal_data of
        Inl e \<Rightarrow> Inl e
      | Inr min_val \<Rightarrow>
          (case np_max signal_data of
             Inl e \<Rightarrow> Inl e
           | Inr max_val \<Rightarrow>
               Inr (map (\<lambda>x. f_div rnd (f_sub rnd x min_val)
                                (f_add rnd (f_sub rnd max_val min_val) (rnd (1 / 10 ^ 8))))
                      signal_data)))"

text \<open>\<open>astype(np.float32)\<close> of a 16-bit unsigned value is exact.\<close>

definition astype_float32 :: "16 word list \<Rightarrow> npfloat list" where
  "astype_float32 signal = map (\<lambda>v. Num (real (unat v))) signal"

definition apply_filtering_pipeline :: "scipy \<Rightarrow> 16 word list \<Rightarrow> py_error + npfloat list" where
  "apply_filtering_pipeline sp signal =
     (let signal_float = astype_float32 signal in
      case apply_notch_filter sp signal_float of
        Inl e \<Rightarrow> Inl e
      | Inr filtered1 \<Rightarrow>
          (case apply_fir_lowpass sp filtered1 of
             Inl e \<Rightarrow> Inl e
           | Inr filtered2 \<Rightarrow> apply_iir_highpass sp filtered2))"

record processed_segment = window_header +
  raw_signal :: "16 word list"
  filtered_signal :: "npfloat list"
  processed_signal :: "npfloat list"

definition process_segment ::
  "rounding \<Rightarrow> scipy \<Rightarrow> segment \<Rightarrow> py_error + processed_segment" where
  "process_segment rnd sp segment =
     (case apply_filtering_pipeline sp (extended_adc_value segment) of
        Inl e \<Rightarrow> Inl e
      | Inr filtered_extended \<Rightarrow>
          (let filtered_core =
                 py_slice (core_start_idx segment) (core_end_idx segment) filtered_extended;
               raw_core =
                 py_slice (core_start_idx segment) (core_end_idx segment)
                   (extended_adc_value segment)
           in case normalize_segment rnd filtered_core of
                Inl e \<Rightarrow> Inl e
              | Inr normalized_signal \<Rightarrow>
                  Inr \<lparr>segment_id = segment_id segment,
                       timestamp_ms = timestamp_ms segment,
                       start_time = start_time segment,
                       end_time = end_time segment,
                       sample_count = sample_count segment,
                       raw_signal = raw_core,
                       filtered_signal = filtered_core,
                       processed_signal = normalized_signal\<rparr>))"

datatype filt_status =
    Filtering_started
  | Filtering_processed nat
  | Filtering_error py_error

record filt_state =
  inference_queue :: "processed_segment list"
  processed_count :: nat
  filt_status_queue :: "filt_status list"

definition filt_init :: filt_state where
  "filt_init = \<lparr>inference_queue = [], processed_count = 0, filt_status_queue = []\<rparr>"

text \<open>
  One turn of \<open>filtering_loop\<close> that dequeued a segment. Whatever \<open>process_segment\<close> raises is
  caught and reported; whatever it returns is put on the inference queue as it is.
\<close>

definition filtering_step ::
  "rounding \<Rightarrow> scipy \<Rightarrow> filt_state \<Rightarrow> segment \<Rightarrow> filt_state" where
  "filtering_step rnd sp st segment =
     (case process_segment rnd sp segment of
        Inl e \<Rightarrow> st\<lparr>filt_status_queue := filt_status_queue st @ [Filtering_error e]\<rparr>
      | Inr processed \<Rightarrow>
          (let st1 = st\<lparr>inference_queue := inference_queue st @ [processed],
                         processed_count := processed_count st + 1\<rparr>
           in if processed_count st1 mod 10 = 0
              then st1\<lparr>filt_status_queue :=
                     filt_status_queue st1 @ [Filtering_processed (processed_count st1)]\<rparr>
              else st1))"

definition filtering_loop ::
  "rounding \<Rightarrow> scipy \<Rightarrow> segment list \<Rightarrow> filt_state \<Rightarrow> filt_state" where
  "filtering_loop rnd sp segments st =
     foldl (filtering_step rnd sp)
       (st\<lparr>filt_status_queue := filt_status_queue st @ [Filtering_started]\<rparr>) segments"


text \<open>
  A stand-in for \<open>scipy.signal\<close>, used to run the stage on concrete windows: its
  \<open>filtfilt\<close> returns the signal unchanged.
\<close>

definition scipy_stub :: scipy where
  "scipy_stub =
     \<lparr>iirnotch = (\<lambda>w0 Q fs. Inr ([], [])),
      remez = (\<lambda>numtaps bands desired fs weight. Inr []),
      ellipord = (\<lambda>wp ws gpass gstop. Inr (0, Num 0)),
      ellip = (\<lambda>N rp rs Wn. Inr ([], [])),
      filtfilt = (\<lambda>b a x. Inr x)\<rparr>"

text \<open>A packet payload whose first sample has ADC value 1; all else is zero.\<close>

definition MARK_PACKET :: "byte list" where
  "MARK_PACKET = [0, 0, 0, 0, 1, 0] @ replicate 1530 0"

text \<open>The errors reported on a status queue, in their order.\<close>

definition filtering_errors :: "filt_status list \<Rightarrow> py_error list" where
  "filtering_errors msgs =
     concat (map (\<lambda>m. case m of Filtering_error e \<Rightarrow> [e] | _ \<Rightarrow> []) msgs)"



lemma foldl_min_Num:
  "foldl (\<lambda>m x. if f_less x m then x else m) (Num a) (map Num rs) = Num (fold min rs a)"
proof (induction rs arbitrary: a)
  case Nil
  show ?case by simp
next
  case (Cons r rs)
  show ?case using Cons [of r] Cons [of a] by (simp add: min_def)
qed

lemma foldl_max_Num:
  "foldl (\<lambda>m x. if f_less m x then x else m) (Num a) (map Num rs) = Num (fold max rs a)"
proof (induction rs arbitrary: a)
  case Nil
  show ?case by simp
next
  case (Cons r rs)
  show ?case using Cons [of r] Cons [of a] by (simp add: max_def)
qed

lemma Nan_notin_Num: "Nan \<notin> set (map Num rs)"
  by auto

lemma np_min_Num:
  assumes "rs \<noteq> []"
  shows "np_min (map Num rs) = Inr (Num (Min (set rs)))"
proof -
  from assms obtain a rs' where rs: "rs = a # rs'" by (cases rs) auto
  have "Min (set (a # rs')) = fold min rs' a" by (rule Min.set_eq_fold)
  then show ?thesis
    unfolding np_min_def rs using Nan_notin_Num [of "a # rs'"] foldl_min_Num [of a rs']
    by simp
qed

lemma np_max_Num:
  assumes "rs \<noteq> []"
  shows "np_max (map Num rs) = Inr (Num (Max (set rs)))"
proof -
  from assms obtain a rs' where rs: "rs = a # rs'" by (cases rs) auto
  have "Max (set (a # rs')) = fold max rs' a" by (rule Max.set_eq_fold)
  then show ?thesis
    unfolding np_max_def rs using Nan_notin_Num [of "a # rs'"] foldl_max_Num [of a rs']
    by simp
qed


lemma normalize_segment_Num:
  assumes "rs \<noteq> []"
  shows "normalize_segment rnd (map Num rs) =
     Inr (map (\<lambda>x. f_div rnd (f_sub rnd (Num x) (Num (Min (set rs))))
                      (f_add rnd (f_sub rnd (Num (Max (set rs))) (Num (Min (set rs))))
                         (rnd (1 / 10 ^ 8)))) rs)"
  by (simp add: normalize_segment_def np_min_Num [OF assms] np_max_Num [OF assms] comp_def)








lemma unpack_packet_zeros:
  "unpack_packet (replicate (6 * n) 0) = Inr (replicate n (0, 0))"
proof (induction n)
  case 0
  show ?case by simp
next
  case (Suc n)
  have "replicate (6 * Suc n) (0::byte) = 0 # 0 # 0 # 0 # 0 # 0 # replicate (6 * n) 0"
    by (simp add: numeral_eq_Suc)
  then show ?case using Suc by (simp add: le32_def le16_def)
qed

lemma unpack_ZERO_PACKET: "unpack_packet ZERO_PACKET = Inr (replicate 256 (0, 0))"
  using unpack_packet_zeros [of 256] by (simp add: ZERO_PACKET_def)

lemma unpack_MARK_PACKET: "unpack_packet MARK_PACKET = Inr ((0, 1) # replicate 255 (0, 0))"
  using unpack_packet_zeros [of 255] by (simp add: MARK_PACKET_def le32_def le16_def)

lemma decoded_zero_packets: "decoded (replicate n ZERO_PACKET) = replicate (256 * n) (0, 0)"
  by (induction n) (simp_all add: decoded_def unpack_ZERO_PACKET replicate_add)

lemma decoded_mark_packets:
  "decoded (MARK_PACKET # replicate n ZERO_PACKET) = (0, 1) # replicate (255 + 256 * n) (0, 0)"
  using decoded_zero_packets [of n]
  by (simp add: decoded_def unpack_MARK_PACKET replicate_add)

lemma mark_packets_ok:
  "\<forall>p\<in>set (MARK_PACKET # replicate n ZERO_PACKET). length p = PACKET_DATA_SIZE"
  by (simp add: MARK_PACKET_def ZERO_PACKET_def PACKET_DATA_SIZE_def BUFFER_SIZE_def)

lemma first_mark_window:
  "windows_of (MARK_PACKET # replicate 4 ZERO_PACKET) =
     [segment_at ((0, 1) # replicate 1279 (0, 0)) 0]"
  using windows_of_eq [OF mark_packets_ok [of 4]] decoded_mark_packets [of 4] by simp

lemma first_zero_window:
  "windows_of (replicate 5 ZERO_PACKET) = [segment_at (replicate 1280 (0, 0)) 0]"
  using windows_of_eq [OF zero_packets_ok [of 5]] decoded_zero_packets [of 5] by simp


lemma stopband_weight: "(10::real) powr (FIR_STOPBAND_ATTEN_DB / 20) = 100"
proof -
  have "(10::real) powr 2 = 10 ^ 2" by (rule powr_numeral) simp
  then show ?thesis by (simp add: FIR_STOPBAND_ATTEN_DB_def)
qed

lemma apply_notch_filter_Inr:
  assumes "apply_notch_filter sp x = Inr y"
  shows "\<exists>b a. iirnotch sp 61 10 360 = Inr (b, a) \<and> filtfilt sp b a x = Inr y"
  using assms
  by (auto simp: apply_notch_filter_def NOTCH_FREQ_HZ_def NOTCH_Q_def SAMPLE_RATE_HZ_def
      split: sum.splits)

lemma apply_fir_lowpass_Inr:
  assumes "apply_fir_lowpass sp x = Inr y"
  shows "\<exists>b. remez sp fir_numtaps [0, 150, 180, 180] [1, 0] 360 [1, 100] = Inr b \<and>
             filtfilt sp b [Num 1] x = Inr y"
proof -
  have w: "(10::real) powr (40 / 20) = 100"
    using stopband_weight by (simp add: FIR_STOPBAND_ATTEN_DB_def)
  from assms show ?thesis
    unfolding apply_fir_lowpass_def Let_def FIR_PASSBAND_HZ_def FIR_STOPBAND_HZ_def
      SAMPLE_RATE_HZ_def FIR_STOPBAND_ATTEN_DB_def w
    by (auto split: sum.splits)
qed

lemma apply_iir_highpass_Inr:
  assumes "apply_iir_highpass sp x = Inr y"
  shows "\<exists>N Wn b a. ellipord sp (1 / 180) (0.05 / 180) 0.5 40 = Inr (N, Wn) \<and>
             ellip sp N 0.5 40 Wn = Inr (b, a) \<and> filtfilt sp b a x = Inr y"
  using assms
  unfolding apply_iir_highpass_def Let_def HPF_PASSBAND_HZ_def HPF_STOPBAND_HZ_def
    HPF_PASSBAND_RIPPLE_DB_def HPF_STOPBAND_ATTEN_DB_def SAMPLE_RATE_HZ_def
  by (auto split: sum.splits)

lemma apply_filtering_pipeline_Inr:
  assumes "apply_filtering_pipeline sp signal = Inr y3"
  shows "\<exists>y1 y2. apply_notch_filter sp (astype_float32 signal) = Inr y1 \<and>
           apply_fir_lowpass sp y1 = Inr y2 \<and> apply_iir_highpass sp y2 = Inr y3"
  using assms by (auto simp: apply_filtering_pipeline_def split: sum.splits)

lemma process_segment_Inr:
  assumes "process_segment rnd sp segment = Inr out"
  shows "\<exists>y3. apply_filtering_pipeline sp (extended_adc_value segment) = Inr y3 \<and>
           filtered_signal out = py_slice (core_start_idx segment) (core_end_idx segment) y3 \<and>
           raw_signal out =
             py_slice (core_start_idx segment) (core_end_idx segment) (extended_adc_value segment) \<and>
           normalize_segment rnd (filtered_signal out) = Inr (processed_signal out) \<and>
           segment_id out = segment_id segment \<and> timestamp_ms out = timestamp_ms segment \<and>
           start_time out = start_time segment \<and> end_time out = end_time segment \<and>
           sample_count out = sample_count segment"
  using assms by (auto simp: process_segment_def Let_def split: sum.splits)


lemma astype_float32_map: "astype_float32 xs = map Num (map (\<lambda>v. real (unat v)) xs)"
  by (simp add: astype_float32_def)

lemma apply_filtering_pipeline_stub:
  "apply_filtering_pipeline scipy_stub signal = Inr (astype_float32 signal)"
  by (simp add: apply_filtering_pipeline_def apply_notch_filter_def apply_fir_lowpass_def
      apply_iir_highpass_def scipy_stub_def Let_def)

lemma process_segment_stub:
  assumes "py_slice (core_start_idx seg) (core_end_idx seg) (extended_adc_value seg) \<noteq> []"
  shows "\<exists>out. process_segment rnd scipy_stub seg = Inr out \<and>
           raw_signal out =
             py_slice (core_start_idx seg) (core_end_idx seg) (extended_adc_value seg)"
proof -
  let ?raw = "py_slice (core_start_idx seg) (core_end_idx seg) (extended_adc_value seg)"
  have core: "py_slice (core_start_idx seg) (core_end_idx seg)
                 (astype_float32 (extended_adc_value seg)) =
              map Num (map (\<lambda>v. real (unat v)) ?raw)"
    by (simp add: astype_float32_map py_slice_map)
  from assms have "map (\<lambda>v. real (unat v)) ?raw \<noteq> []" by simp
  from normalize_segment_Num [OF this] obtain ys
    where "normalize_segment rnd (map Num (map (\<lambda>v. real (unat v)) ?raw)) = Inr ys" by blast
  then show ?thesis
    by (simp add: process_segment_def apply_filtering_pipeline_stub core Let_def)
qed

lemma mark_window_fields:
  "extended_adc_value (windows_of (MARK_PACKET # replicate 4 ZERO_PACKET) ! 0) =
     1 # replicate 1279 0"
  "core_start_idx (windows_of (MARK_PACKET # replicate 4 ZERO_PACKET) ! 0) = 0"
  "core_end_idx (windows_of (MARK_PACKET # replicate 4 ZERO_PACKET) ! 0) = 1024"
  by (simp_all add: first_mark_window segment_at_def extended_at_def py_slice_def
      SEGMENT_SIZE_def OVERLAP_SIZE_def)

text \<open>
  C6, as stated, fails for the first window: its core region is \<open>[0, 1024)\<close>, not
  \<open>[overlap_len, overlap_len + core_len) = [256, 1280)\<close>. On a first window whose first ADC
  value is 1 and all others 0, the raw core that \<open>process_segment\<close> passes on starts with
  that 1, and the slice \<open>[256, 1280)\<close> of the extended array does not hold it.
\<close>

theorem first_window_core_slice:
  "(case process_segment Num scipy_stub (windows_of (MARK_PACKET # replicate 4 ZERO_PACKET) ! 0) of
      Inl e \<Rightarrow> Inl e
    | Inr out \<Rightarrow> Inr (raw_signal out)) = Inr (1 # replicate 1023 0) \<and>
   py_slice OVERLAP_SIZE (OVERLAP_SIZE + SEGMENT_SIZE)
     (extended_adc_value (windows_of (MARK_PACKET # replicate 4 ZERO_PACKET) ! 0)) =
     replicate 1024 0"
proof -
  let ?w = "windows_of (MARK_PACKET # replicate 4 ZERO_PACKET) ! 0"
  have raw: "py_slice (core_start_idx ?w) (core_end_idx ?w) (extended_adc_value ?w) =
      1 # replicate 1023 0"
    by (simp add: mark_window_fields py_slice_def)
  then have "py_slice (core_start_idx ?w) (core_end_idx ?w) (extended_adc_value ?w) \<noteq> []"
    by simp
  from process_segment_stub [OF this] raw obtain out
    where "process_segment Num scipy_stub ?w = Inr out" and "raw_signal out = 1 # replicate 1023 0"
    by auto
  moreover have "py_slice OVERLAP_SIZE (OVERLAP_SIZE + SEGMENT_SIZE) (extended_adc_value ?w) =
      replicate 1024 0"
    by (simp add: mark_window_fields py_slice_def SEGMENT_SIZE_def OVERLAP_SIZE_def)
  ultimately show ?thesis by simp
qed

text \<open>
  C6, amended: whenever a window of the windower is processed without an exception, the
  notch filter (61 Hz, Q = 10, at 360 Hz) was designed and applied with \<open>filtfilt\<close> to the
  whole extended ADC array, then the equiripple low-pass (band edges 0, 150, 180, 180 Hz)
  with \<open>filtfilt\<close> to that result, then the elliptic high-pass (edges 1/180 and 0.05/180
  of Nyquist, 0.5 dB, 40 dB) with \<open>filtfilt\<close> to that result; the core region, which is
  \<open>[0, 1024)\<close> for the first window and \<open>[256, 1280)\<close> for every later one, is cut from the
  filtered and from the raw extended array; the raw core is passed on as it is, and the
  normalized signal is the normalization of the filtered core.
\<close>

theorem process_segment_cascade:
  assumes "\<forall>p\<in>set packets. length p = PACKET_DATA_SIZE"
    and "i < length (windows_of packets)"
    and "process_segment rnd sp (windows_of packets ! i) = Inr out"
  shows "\<exists>bn an y1 bf y2 N Wn bh ah y3.
      iirnotch sp 61 10 360 = Inr (bn, an) \<and>
      filtfilt sp bn an (astype_float32 (extended_adc_value (windows_of packets ! i))) = Inr y1 \<and>
      remez sp fir_numtaps [0, 150, 180, 180] [1, 0] 360 [1, 100] = Inr bf \<and>
      filtfilt sp bf [Num 1] y1 = Inr y2 \<and>
      ellipord sp (1 / 180) (0.05 / 180) 0.5 40 = Inr (N, Wn) \<and>
      ellip sp N 0.5 40 Wn = Inr (bh, ah) \<and>
      filtfilt sp bh ah y2 = Inr y3 \<and>
      filtered_signal out =
        py_slice (if i = 0 then 0 else OVERLAP_SIZE)
          ((if i = 0 then 0 else OVERLAP_SIZE) + SEGMENT_SIZE) y3 \<and>
      raw_signal out =
        py_slice (if i = 0 then 0 else OVERLAP_SIZE)
          ((if i = 0 then 0 else OVERLAP_SIZE) + SEGMENT_SIZE)
          (extended_adc_value (windows_of packets ! i)) \<and>
      normalize_segment rnd (filtered_signal out) = Inr (processed_signal out)"
proof -
  let ?w = "windows_of packets ! i"
  have idx: "core_start_idx ?w = (if i = 0 then 0 else OVERLAP_SIZE)"
    "core_end_idx ?w = (if i = 0 then 0 else OVERLAP_SIZE) + SEGMENT_SIZE"
    by (simp_all add: windows_of_nth(1) [OF assms(1,2)] segment_at_def)
  from process_segment_Inr [OF assms(3)] obtain y3
    where pipe: "apply_filtering_pipeline sp (extended_adc_value ?w) = Inr y3"
      and filt: "filtered_signal out = py_slice (core_start_idx ?w) (core_end_idx ?w) y3"
      and raw: "raw_signal out =
             py_slice (core_start_idx ?w) (core_end_idx ?w) (extended_adc_value ?w)"
      and norm: "normalize_segment rnd (filtered_signal out) = Inr (processed_signal out)"
    by blast
  from apply_filtering_pipeline_Inr [OF pipe] obtain y1 y2
    where n: "apply_notch_filter sp (astype_float32 (extended_adc_value ?w)) = Inr y1"
      and f: "apply_fir_lowpass sp y1 = Inr y2"
      and h: "apply_iir_highpass sp y2 = Inr y3"
    by blast
  from apply_notch_filter_Inr [OF n] obtain bn an
    where n': "iirnotch sp 61 10 360 = Inr (bn, an)"
      "filtfilt sp bn an (astype_float32 (extended_adc_value ?w)) = Inr y1"
    by blast
  from apply_fir_lowpass_Inr [OF f] obtain bf
    where f': "remez sp fir_numtaps [0, 150, 180, 180] [1, 0] 360 [1, 100] = Inr bf"
      "filtfilt sp bf [Num 1] y1 = Inr y2"
    by blast
  from apply_iir_highpass_Inr [OF h] obtain N Wn bh ah
    where h': "ellipord sp (1 / 180) (0.05 / 180) 0.5 40 = Inr (N, Wn)"
      "ellip sp N 0.5 40 Wn = Inr (bh, ah)" "filtfilt sp bh ah y2 = Inr y3"
    by blast
  from n' f' h' filt raw norm show ?thesis
    unfolding idx by blast
qed

lemma window_raw_core_nonempty:
  assumes "\<forall>p\<in>set packets. length p = PACKET_DATA_SIZE"
    and "i < length (windows_of packets)"
  shows "py_slice (core_start_idx (windows_of packets ! i)) (core_end_idx (windows_of packets ! i))
           (extended_adc_value (windows_of packets ! i)) \<noteq> []"
proof -
  note len = windows_of_nth(2) [OF assms]
  have "py_slice (core_start_idx (windows_of packets ! i)) (core_end_idx (windows_of packets ! i))
           (extended_adc_value (windows_of packets ! i)) = map snd (core_at (decoded packets) i)"
    using core_of_extended_at [OF len]
    by (simp add: windows_of_nth(1) [OF assms] segment_at_def py_slice_map)
  moreover have "length (map snd (core_at (decoded packets) i)) = SEGMENT_SIZE"
    by (simp add: length_core_at [OF len])
  ultimately show ?thesis by (auto simp: SEGMENT_SIZE_def)
qed

theorem process_segment_cascade_witness:
  "\<exists>out. process_segment Num scipy_stub (windows_of (replicate 9 ZERO_PACKET) ! 1) = Inr out \<and>
     raw_signal out =
       py_slice 256 1280 (extended_adc_value (windows_of (replicate 9 ZERO_PACKET) ! 1)) \<and>
     normalize_segment Num (filtered_signal out) = Inr (processed_signal out)"
proof -
  let ?w = "windows_of (replicate 9 ZERO_PACKET) ! 1"
  have len: "1 < length (windows_of (replicate 9 ZERO_PACKET))"
    by (simp add: windows_of_eq [OF zero_packets_ok])
  have "py_slice (core_start_idx ?w) (core_end_idx ?w) (extended_adc_value ?w) \<noteq> []"
    by (rule window_raw_core_nonempty [OF zero_packets_ok len])
  from process_segment_stub [OF this] obtain out
    where out: "process_segment Num scipy_stub ?w = Inr out" by blast
  from process_segment_cascade [OF zero_packets_ok len out] out
  show ?thesis by (auto simp: SEGMENT_SIZE_def OVERLAP_SIZE_def)
qed


lemma filtering_errors_append [simp]:
  "filtering_errors (xs @ ys) = filtering_errors xs @ filtering_errors ys"
  by (simp add: filtering_errors_def)

lemma filtering_errors_simps [simp]:
  "filtering_errors [] = []"
  "filtering_errors [Filtering_error e] = [e]"
  "filtering_errors [Filtering_started] = []"
  "filtering_errors [Filtering_processed n] = []"
  by (simp_all add: filtering_errors_def)

lemma filtering_step_effect:
  "inference_queue (filtering_step rnd sp st seg) =
     inference_queue st @ (case process_segment rnd sp seg of Inl e \<Rightarrow> [] | Inr out \<Rightarrow> [out])"
  "filtering_errors (filt_status_queue (filtering_step rnd sp st seg)) =
     filtering_errors (filt_status_queue st) @
       (case process_segment rnd sp seg of Inl e \<Rightarrow> [e] | Inr out \<Rightarrow> [])"
  "processed_count (filtering_step rnd sp st seg) =
     processed_count st + (case process_segment rnd sp seg of Inl e \<Rightarrow> 0 | Inr out \<Rightarrow> 1)"
  by (simp_all add: filtering_step_def Let_def split: sum.splits)

lemma filtering_fold:
  "inference_queue (foldl (filtering_step rnd sp) st segments) =
     inference_queue st @
       concat (map (\<lambda>seg. case process_segment rnd sp seg of Inl e \<Rightarrow> [] | Inr out \<Rightarrow> [out]) segments)"
  "filtering_errors (filt_status_queue (foldl (filtering_step rnd sp) st segments)) =
     filtering_errors (filt_status_queue st) @
       concat (map (\<lambda>seg. case process_segment rnd sp seg of Inl e \<Rightarrow> [e] | Inr out \<Rightarrow> []) segments)"
  "processed_count (foldl (filtering_step rnd sp) st segments) + length (inference_queue st) =
     processed_count st + length (inference_queue (foldl (filtering_step rnd sp) st segments))"
proof (induction segments arbitrary: st)
  case Nil
  {
    case 1 show ?case by simp
  next
    case 2 show ?case by simp
  next
    case 3 show ?case by simp
  }
next
  case (Cons seg segments)
  {
    case 1
    show ?case by (simp add: Cons.IH(1) filtering_step_effect(1))
  next
    case 2
    show ?case by (simp add: Cons.IH(2) filtering_step_effect(2))
  next
    case 3
    show ?case
      using Cons.IH(3) [of "filtering_step rnd sp st seg"]
      by (simp add: filtering_step_effect split: sum.splits)
  }
qed

text \<open>
  What the loop does with the results of \<open>process_segment\<close>: the inference queue receives,
  in order, exactly the results of the windows on which it returned; for every window on
  which it raised, the error is reported and the loop goes on with the next window; the
  counter counts the forwarded windows. No value of a result is inspected.
\<close>

lemma filtering_loop_forwards:
  "inference_queue (filtering_loop rnd sp segments filt_init) =
     concat (map (\<lambda>seg. case process_segment rnd sp seg of Inl e \<Rightarrow> [] | Inr out \<Rightarrow> [out]) segments) \<and>
   filtering_errors (filt_status_queue (filtering_loop rnd sp segments filt_init)) =
     concat (map (\<lambda>seg. case process_segment rnd sp seg of Inl e \<Rightarrow> [e] | Inr out \<Rightarrow> []) segments) \<and>
   processed_count (filtering_loop rnd sp segments filt_init) =
     length (inference_queue (filtering_loop rnd sp segments filt_init))"
  using filtering_fold(3)
    [of rnd sp "filt_init\<lparr>filt_status_queue := filt_status_queue filt_init @ [Filtering_started]\<rparr>"
      segments]
  by (simp add: filtering_loop_def filtering_fold(1,2)) (simp add: filt_init_def)



section \<open>Inference stage (deploy\_inference.py)\<close>

definition RHYTHM_CLASSES :: "nat \<rightharpoonup> string" where
  "RHYTHM_CLASSES = [0 \<mapsto> ''NSR'', 1 \<mapsto> ''AFIB'', 2 \<mapsto> ''PVC'', 3 \<mapsto> ''LBBB'']"

text \<open>
  The TFLite interpreter is not part of the repository. It is modelled by what one use of
  it does: given the input tensor, it returns the first row of the output tensor, or one
  of its calls raises.
\<close>

type_synonym interpreter = "npfloat list \<Rightarrow> py_error + npfloat list"

record prediction =
  rhythm_class :: nat
  label :: string
  confidence :: npfloat

text \<open>
  \<open>np.argmax\<close>: a \<open>ValueError\<close> on an empty array; otherwise the first index of a NaN when
  there is one, and the first index of the maximum when there is none.
\<close>

definition np_argmax :: "npfloat list \<Rightarrow> py_error + nat" where
  "np_argmax xs =
     (case np_max xs of
        Inl e \<Rightarrow> Inl e
      | Inr m \<Rightarrow> Inr (length (takeWhile (\<lambda>x. x \<noteq> m) xs)))"

text \<open>
  The body of the \<open>try\<close> in \<open>run_inference\<close>: \<open>reshape(1, 1024, 1)\<close> raises unless the signal
  has 1024 values, the interpreter may raise, and the class found must be a key of
  \<open>RHYTHM_CLASSES\<close>.
\<close>

definition invoke_model :: "interpreter \<Rightarrow> npfloat list \<Rightarrow> py_error + prediction" where
  "invoke_model interp input_signal =
     (if length input_signal \<noteq> 1024 then Inl Value_error
      else
        (case interp input_signal of
           Inl e \<Rightarrow> Inl e
         | Inr output_data \<Rightarrow>
             (case np_argmax output_data of
                Inl e \<Rightarrow> Inl e
              | Inr predicted_class \<Rightarrow>
                  (case np_max output_data of
                     Inl e \<Rightarrow> Inl e
                   | Inr conf \<Rightarrow>
                       (case RHYTHM_CLASSES predicted_class of
                          None \<Rightarrow> Inl Key_error
                        | Some l \<Rightarrow>
                            Inr \<lparr>rhythm_class = predicted_class, label = l,
                                 confidence = conf\<rparr>)))))"

datatype inf_status =
    Inference_started
  | Session_start string
  | Info_signal_file string
  | Info_rhythm_file string
  | Saved "string option" int
  | Session_stop "string option"
  | Info_samples_written nat
  | Info_inferences_performed nat
  | Inference_failed py_error
  | Rhythm string "int option"
  | Debug_inferences nat

text \<open>\<open>run_inference\<close>: the prediction returned and the messages put on the status queue.\<close>

definition run_inference ::
  "interpreter option \<Rightarrow> npfloat list \<Rightarrow> prediction \<times> inf_status list" where
  "run_inference interp input_signal =
     (case interp of
        None \<Rightarrow> (\<lparr>rhythm_class = 0, label = ''NSR'', confidence = Num 0\<rparr>, [])
      | Some f \<Rightarrow>
          (case invoke_model f input_signal of
             Inr p \<Rightarrow> (p, [])
           | Inl e \<Rightarrow>
               (\<lparr>rhythm_class = 0, label = ''NSR'', confidence = Num 0\<rparr>,
                [Inference_failed e])))"

text \<open>
  The rows of the CSV files. The output directory is a map from paths to the rows written
  to the file so far; a file object is the path of the file it has open, and the CSV
  writer made from it goes with it. A row holds the values that are written, not their
  text: the confidence of a rhythm row is the value that the code prints with four
  decimals.

  The start time of a recording is tested for truth where it is used: a start time of
  0.0 counts as none.
\<close>

datatype csv_row =
    Header "string list"
  | Signal_row "32 word" "16 word"
  | Filtered_row "32 word" npfloat
  | Rhythm_row nat "32 word" "32 word" nat string npfloat

record inf_state =
  output_dir :: string
  files :: "string \<rightharpoonup> csv_row list"
  signal_file :: "string option"
  filtered_file :: "string option"
  annotation_file :: "string option"
  current_session :: "string option"
  buzzer :: bool
  buzzer_alerts :: "nat list"
  interpreter :: "interpreter option"
  inference_count :: nat
  samples_written :: nat
  recording_start_time :: "real option"
  recording_duration :: int
  session_active :: bool
  inf_status_queue :: "inf_status list"

text \<open>Python's \<open>int\<close> of a float truncates towards zero.\<close>

definition py_int :: "real \<Rightarrow> int" where
  "py_int x = (if 0 \<le> x then \<lfloor>x\<rfloor> else \<lceil>x\<rceil>)"

definition writerows :: "string \<Rightarrow> csv_row list \<Rightarrow> (string \<rightharpoonup> csv_row list) \<Rightarrow> (string \<rightharpoonup> csv_row list)" where
  "writerows path rows fs = fs(path \<mapsto> (case fs path of None \<Rightarrow> [] | Some old \<Rightarrow> old) @ rows)"

definition session_path :: "inf_state \<Rightarrow> string \<Rightarrow> string \<Rightarrow> string" where
  "session_path st session_name suffix = output_dir st @ ''/'' @ session_name @ suffix"

text \<open>\<open>start_session\<close>: the three files are opened in mode \<open>'w'\<close>, which empties a file that exists.\<close>

definition start_session :: "inf_state \<Rightarrow> string \<Rightarrow> real \<Rightarrow> inf_state" where
  "start_session st session_name now =
     (let signal_path = session_path st session_name ''_signal.csv'';
          filtered_path = session_path st session_name ''_filtered.csv'';
          annotation_path = session_path st session_name ''_rhythm.csv''
      in st\<lparr>current_session := Some session_name,
            recording_start_time := Some now,
            recording_duration := 0,
            files := (files st)
              (signal_path \<mapsto> [Header [''timestamp_ms'', ''adc_value'']],
               filtered_path \<mapsto> [Header [''timestamp_ms'', ''adc_value'']],
               annotation_path \<mapsto>
                 [Header [''segment_id'', ''start_time_ms'', ''end_time_ms'', ''rhythm_class'',
                          ''rhythm_label'', ''confidence'']]),
            signal_file := Some signal_path,
            filtered_file := Some filtered_path,
            annotation_file := Some annotation_path,
            inf_status_queue := inf_status_queue st @
              [Session_start session_name, Info_signal_file signal_path,
               Info_rhythm_file annotation_path]\<rparr>)"

definition stop_session :: "inf_state \<Rightarrow> real \<Rightarrow> inf_state" where
  "stop_session st now =
     (let duration = (case recording_start_time st of
                        Some t0 \<Rightarrow>
                          if t0 \<noteq> 0 then py_int (now - t0) else recording_duration st
                      | None \<Rightarrow> recording_duration st)
      in st\<lparr>recording_duration := duration,
            signal_file := None,
            filtered_file := None,
            annotation_file := None,
            inf_status_queue := inf_status_queue st @
              [Saved (current_session st) duration, Session_stop (current_session st),
               Info_samples_written (samples_written st),
               Info_inferences_performed (inference_count st)],
            current_session := None,
            samples_written := 0,
            inference_count := 0\<rparr>)"

definition write_signal_samples :: "inf_state \<Rightarrow> processed_segment \<Rightarrow> inf_state" where
  "write_signal_samples st segment =
     (case signal_file st of
        None \<Rightarrow> st
      | Some signal_path \<Rightarrow>
          (let timestamps = timestamp_ms segment;
               fs1 = writerows signal_path
                       (map (\<lambda>(t, v). Signal_row t v) (zip timestamps (raw_signal segment)))
                       (files st);
               fs2 = (case filtered_file st of
                        None \<Rightarrow> fs1
                      | Some filtered_path \<Rightarrow>
                          writerows filtered_path
                            (map (\<lambda>(t, v). Filtered_row t v)
                               (zip timestamps (filtered_signal segment)))
                            fs1)
           in st\<lparr>files := fs2, samples_written := samples_written st + length timestamps\<rparr>))"

definition write_rhythm_annotation ::
  "inf_state \<Rightarrow> processed_segment \<Rightarrow> prediction \<Rightarrow> real \<Rightarrow> inf_state" where
  "write_rhythm_annotation st segment p now =
     (case annotation_file st of
        None \<Rightarrow> st
      | Some annotation_path \<Rightarrow>
          st\<lparr>files := writerows annotation_path
                  [Rhythm_row (segment_id segment) (start_time segment) (end_time segment)
                     (rhythm_class p) (label p) (confidence p)]
                  (files st),
             buzzer_alerts :=
               (if rhythm_class p \<noteq> 0 \<and> buzzer st
                then buzzer_alerts st @ [rhythm_class p] else buzzer_alerts st),
             inf_status_queue := inf_status_queue st @
               [Rhythm (label p)
                  (case recording_start_time st of
                     Some t0 \<Rightarrow> if t0 \<noteq> 0 then Some (py_int (now - t0)) else None
                   | None \<Rightarrow> None)]\<rparr>)"

text \<open>\<open>process_segment\<close> of the inference stage.\<close>

definition infer_segment :: "inf_state \<Rightarrow> processed_segment \<Rightarrow> real \<Rightarrow> inf_state" where
  "infer_segment st segment now =
     (case run_inference (interpreter st) (processed_signal segment) of
        (p, msgs) \<Rightarrow>
          (let st1 = st\<lparr>inf_status_queue := inf_status_queue st @ msgs\<rparr>;
               st2 = write_signal_samples st1 segment;
               st3 = write_rhythm_annotation st2 segment p now
           in st3\<lparr>inference_count := inference_count st3 + 1\<rparr>))"

text \<open>
  One turn of the loop of \<open>inference_loop\<close>: what \<open>get_nowait\<close> found on the control queue
  (\<open>None\<close> when it was empty), what \<open>get\<close> found on the inference queue within its timeout,
  the clock during the turn, and the clock as \<open>strftime("%d%m%y_%H%M%S")\<close> prints it.
\<close>

record turn =
  control :: "string option"
  dequeued :: "processed_segment option"
  clock :: real
  stamp :: string

definition inference_turn :: "inf_state \<Rightarrow> turn \<Rightarrow> inf_state" where
  "inference_turn st t =
     (let st1 = (case control t of
                   None \<Rightarrow> st
                 | Some msg \<Rightarrow>
                     if msg = ''STOP_SESSION'' \<and> session_active st
                     then (stop_session st (clock t))\<lparr>session_active := False\<rparr>
                     else st)
      in case dequeued t of
           None \<Rightarrow> st1
         | Some segment \<Rightarrow>
             (let st2 = (if \<not> session_active st1
                         then (start_session st1 (''ecg_'' @ stamp t) (clock t))
                                \<lparr>session_active := True\<rparr>
                         else st1);
                  st3 = infer_segment st2 segment (clock t)
              in if inference_count st3 mod 10 = 0
                 then st3\<lparr>inf_status_queue :=
                        inf_status_queue st3 @ [Debug_inferences (inference_count st3)]\<rparr>
                 else st3))"

definition inference_loop :: "turn list \<Rightarrow> real \<Rightarrow> inf_state \<Rightarrow> inf_state" where
  "inference_loop turns end_clock st =
     (let st1 = foldl inference_turn
                  (st\<lparr>inf_status_queue := inf_status_queue st @ [Inference_started],
                      session_active := False\<rparr>) turns
      in if session_active st1 then stop_session st1 end_clock else st1)"




lemma invoke_model_raises:
  "f input_signal = Inl e \<Longrightarrow> \<exists>e'. invoke_model f input_signal = Inl e'"
  by (simp add: invoke_model_def)

text \<open>
  C9: when no interpreter is loaded, or the interpreter raises on the input, or anything
  else in the \<open>try\<close> raises, \<open>run_inference\<close> returns class 0 with label \<open>NSR\<close> and
  confidence 0, for every input signal. (The interpreter is a total function here: a call
  of it that never returns is outside the model.)
\<close>

theorem run_inference_default:
  assumes "interp = None \<or>
           (\<exists>f e. interp = Some f \<and> (f input_signal = Inl e \<or> invoke_model f input_signal = Inl e))"
  shows "fst (run_inference interp input_signal) =
           \<lparr>rhythm_class = 0, label = ''NSR'', confidence = Num 0\<rparr>"
  using assms invoke_model_raises [of _ input_signal]
  by (fastforce simp: run_inference_def split: option.splits sum.splits)

theorem run_inference_default_witness:
  "fst (run_inference None (replicate 1024 (Num 0))) =
     \<lparr>rhythm_class = 0, label = ''NSR'', confidence = Num 0\<rparr> \<and>
   fst (run_inference (Some (\<lambda>x. Inl Lib_error)) (replicate 1024 (Num 0))) =
     \<lparr>rhythm_class = 0, label = ''NSR'', confidence = Num 0\<rparr>"
  using run_inference_default [of None "replicate 1024 (Num 0)"]
    run_inference_default [of "Some (\<lambda>x. Inl Lib_error)" "replicate 1024 (Num 0)"]
  by auto














end
